theory Spec2Isabelle
  imports Main "HOL-Library.Sublist" "HOL-Library.Char_ord" "HOL-Library.List_Lexorder"
begin

section \<open>The regular-expression engine used by fix-logger-errors.py\<close>

text \<open>
  The script reads each file as text and rewrites it with Python's \<^verbatim>\<open>re\<close> module. A text is
  modelled as a \<^typ>\<open>string\<close>; a \<^typ>\<open>char\<close> stands for a code point below 256. The
  eight search patterns of \<^verbatim>\<open>PATTERNS\<close> use only literals, greedy repetitions of a
  character class, capture groups and one backreference, so a pattern is kept in the
  flat form to which \<^verbatim>\<open>re\<close> compiles it: a list of items, with marks where a group
  opens and closes.
\<close>

datatype cclass =
    NotComma        \<comment> \<open>\<^verbatim>\<open>[^,]\<close>\<close>
  | NotCommaBrace   \<comment> \<open>\<^verbatim>\<open>[^,}]\<close>\<close>
  | Space           \<comment> \<open>\<^verbatim>\<open>\s\<close>\<close>
  | Letter          \<comment> \<open>\<^verbatim>\<open>[a-zA-Z_]\<close>\<close>
  | Word            \<comment> \<open>\<^verbatim>\<open>\w\<close>\<close>

definition is_space :: "char \<Rightarrow> bool" where
  \<comment> \<open>\<^verbatim>\<open>\s\<close> on a \<^verbatim>\<open>str\<close> pattern: the code points for which \<^verbatim>\<open>str.isspace\<close> holds\<close>
  "is_space c = (of_char c \<in> set [9, 10, 11, 12, 13, 28, 29, 30, 31, 32, 133, 160 :: nat])"

definition is_letter :: "char \<Rightarrow> bool" where
  "is_letter c = (let n = (of_char c :: nat) in
     (97 \<le> n \<and> n \<le> 122) \<or> (65 \<le> n \<and> n \<le> 90) \<or> n = 95)"

definition is_word :: "char \<Rightarrow> bool" where
  \<comment> \<open>\<^verbatim>\<open>\w\<close> on a \<^verbatim>\<open>str\<close> pattern: \<^verbatim>\<open>str.isalnum\<close> or the underscore\<close>
  "is_word c = (let n = (of_char c :: nat) in
     (48 \<le> n \<and> n \<le> 57) \<or> (65 \<le> n \<and> n \<le> 90) \<or> n = 95 \<or> (97 \<le> n \<and> n \<le> 122) \<or>
     n = 170 \<or> n = 178 \<or> n = 179 \<or> n = 181 \<or> n = 185 \<or> n = 186 \<or>
     (188 \<le> n \<and> n \<le> 190) \<or> (192 \<le> n \<and> n \<le> 214) \<or> (216 \<le> n \<and> n \<le> 246) \<or>
     (248 \<le> n \<and> n \<le> 255))"

fun in_class :: "cclass \<Rightarrow> char \<Rightarrow> bool" where
  "in_class NotComma c = (c \<noteq> CHR '','')"
| "in_class NotCommaBrace c = (c \<noteq> CHR '','' \<and> c \<noteq> CHR ''}'')"
| "in_class Space c = is_space c"
| "in_class Letter c = is_letter c"
| "in_class Word c = is_word c"

datatype tok =
    Lit char        \<comment> \<open>one literal character\<close>
  | Star cclass     \<comment> \<open>\<^verbatim>\<open>C*\<close>, greedy\<close>
  | Plus cclass     \<comment> \<open>\<^verbatim>\<open>C+\<close>, greedy\<close>
  | GOpen nat       \<comment> \<open>the opening parenthesis of group n\<close>
  | GClose nat      \<comment> \<open>the closing parenthesis of group n\<close>
  | Backref nat     \<comment> \<open>\<^verbatim>\<open>\n\<close>\<close>

type_synonym groups = "(nat \<times> string) list"

text \<open>
  \<open>re_match ts s os gs\<close> matches the items \<open>ts\<close> at the start of \<open>s\<close>, as the backtracking
  matcher of \<^verbatim>\<open>re\<close> does: a greedy repetition first takes one more character and falls
  back to the rest of the pattern when that fails. \<open>os\<close> remembers, for every group opened
  so far, the text that was still unread when it opened; \<open>gs\<close> holds the captured texts.
  The result is the unread rest of \<open>s\<close> and the captures, or \<open>None\<close> where there is no match.
\<close>

fun re_match :: "tok list \<Rightarrow> string \<Rightarrow> groups \<Rightarrow> groups \<Rightarrow> (string \<times> groups) option" where
  "re_match [] s os gs = Some (s, gs)"
| "re_match (Lit c # ts) s os gs =
     (case s of [] \<Rightarrow> None
      | x # s' \<Rightarrow> if x = c then re_match ts s' os gs else None)"
| "re_match (Plus k # ts) s os gs =
     (case s of [] \<Rightarrow> None
      | x # s' \<Rightarrow> if in_class k x then re_match (Star k # ts) s' os gs else None)"
| "re_match (Star k # ts) s os gs =
     (case s of [] \<Rightarrow> re_match ts [] os gs
      | x # s' \<Rightarrow>
          if in_class k x
          then (case re_match (Star k # ts) s' os gs of
                  Some r \<Rightarrow> Some r
                | None \<Rightarrow> re_match ts s os gs)
          else re_match ts s os gs)"
| "re_match (GOpen n # ts) s os gs = re_match ts s ((n, s) # os) gs"
| "re_match (GClose n # ts) s os gs =
     (case map_of os n of None \<Rightarrow> None
      | Some s0 \<Rightarrow> re_match ts s os ((n, take (length s0 - length s) s0) # gs))"
| "re_match (Backref n # ts) s os gs =
     (case map_of gs n of None \<Rightarrow> None
      | Some w \<Rightarrow> if take (length w) s = w then re_match ts (drop (length w) s) os gs else None)"

definition match_at :: "tok list \<Rightarrow> string \<Rightarrow> (string \<times> groups) option" where
  "match_at p s = re_match p s [] []"

text \<open>
  \<^verbatim>\<open>re.findall\<close> and \<^verbatim>\<open>re.sub\<close> scan the text from left to right: at each position the
  pattern is tried; after a match the scan goes on behind it, otherwise one character
  further. A match of the empty string is followed by one copied character (no pattern
  of the table can match the empty string).
\<close>

function re_findall :: "tok list \<Rightarrow> string \<Rightarrow> groups list" where
  "re_findall p s =
     (case match_at p s of
        Some (r, g) \<Rightarrow>
          if length r < length s then g # re_findall p r
          else (case s of [] \<Rightarrow> [g] | c # s' \<Rightarrow> g # re_findall p s')
      | None \<Rightarrow> (case s of [] \<Rightarrow> [] | c # s' \<Rightarrow> re_findall p s'))"
  by pat_completeness auto
termination
  by (relation "measure (\<lambda>(p, s). length s)") auto

function re_sub :: "tok list \<Rightarrow> (groups \<Rightarrow> string) \<Rightarrow> string \<Rightarrow> string" where
  "re_sub p f s =
     (case match_at p s of
        Some (r, g) \<Rightarrow>
          if length r < length s then f g @ re_sub p f r
          else (case s of [] \<Rightarrow> f g | c # s' \<Rightarrow> f g @ c # re_sub p f s')
      | None \<Rightarrow> (case s of [] \<Rightarrow> [] | c # s' \<Rightarrow> c # re_sub p f s'))"
  by pat_completeness auto
termination
  by (relation "measure (\<lambda>(p, f, s). length s)") auto

section \<open>The rule table\<close>

record rule =
  search :: "tok list"
  replace :: "groups \<Rightarrow> string"
  description :: string

definition lit :: "string \<Rightarrow> tok list" where
  "lit w = map Lit w"

definition group :: "groups \<Rightarrow> nat \<Rightarrow> string" where
  \<comment> \<open>\<^verbatim>\<open>m.group(n)\<close> inside an f-string; a group that took no part prints as None\<close>
  "group g n = (case map_of g n of Some w \<Rightarrow> w | None \<Rightarrow> ''None'')"

definition head :: "tok list" where
  \<comment> \<open>\<^verbatim>\<open>logger\.error\(([^,]+),\s*\{\s*\<close>, with which all eight patterns start\<close>
  "head = lit ''logger.error('' @ [GOpen 1, Plus NotComma, GClose 1] @ lit '','' @
          [Star Space] @ lit ''{'' @ [Star Space]"

definition search1 :: "tok list" where
  "search1 = head @ lit ''error:'' @ [Star Space] @ lit ''errorMessage'' @ [Star Space] @ lit '',''"

definition search2 :: "tok list" where
  "search2 = head @ lit ''error:'' @ [Star Space] @ lit ''errorMessage'' @ [Star Space] @
             lit ''}'' @ [Star Space] @ lit '')''"

definition search3 :: "tok list" where
  "search3 = head @ lit ''error:'' @ [Star Space, GOpen 2, Plus Letter, GClose 2] @
             lit ''.message'' @ [Star Space] @ lit '',''"

definition search4 :: "tok list" where
  "search4 = head @ lit ''error:'' @ [Star Space, GOpen 2, Plus Letter, GClose 2] @
             lit ''.message'' @ [Star Space] @ lit ''}'' @ [Star Space] @ lit '')''"

definition search5 :: "tok list" where
  "search5 = head @ lit ''error:'' @ [Star Space] @ lit ''result.error'' @ [Star Space] @
             lit ''}'' @ [Star Space] @ lit '')''"

definition search6 :: "tok list" where
  "search6 = head @ lit ''error:'' @ [Star Space] @ lit ''err'' @ [Plus Space] @
             lit ''instanceof'' @ [Plus Space] @ lit ''Error'' @ [Star Space] @ lit ''?'' @
             [Star Space] @ lit ''err.message'' @ [Star Space] @ lit '':'' @ [Star Space] @
             [Plus NotCommaBrace] @ [Star Space] @ lit ''}'' @ [Star Space] @ lit '')''"

definition search7 :: "tok list" where
  "search7 = head @ [GOpen 2, Plus Word] @ lit ''Error'' @ [GClose 2] @ lit '':'' @
             [Star Space, GOpen 3, Plus Word, GClose 3] @ lit ''.message'' @ [Star Space] @
             lit '',''"

definition search8 :: "tok list" where
  "search8 = head @ lit ''error:'' @ [Star Space, GOpen 2, Plus Letter, GClose 2] @
             lit ''.message'' @ [Star Space] @ lit '','' @ [Star Space] @ lit ''stack:'' @
             [Star Space, Backref 2] @ lit ''.stack'' @ [Star Space] @ lit '',''"

definition rule1 :: rule where
  "rule1 =
    \<lparr>search = search1,
     replace = (\<lambda>m. ''logger.error('' @ group m 1 @ '', new Error(errorMessage), {''),
     description = ''Fix { error: errorMessage } pattern''\<rparr>"

definition rule2 :: rule where
  "rule2 =
    \<lparr>search = search2,
     replace = (\<lambda>m. ''logger.error('' @ group m 1 @ '', new Error(errorMessage))''),
     description = ''Fix { error: errorMessage } (only property) pattern''\<rparr>"

definition rule3 :: rule where
  "rule3 =
    \<lparr>search = search3,
     replace = (\<lambda>m. ''logger.error('' @ group m 1 @ '', new Error('' @ group m 2 @
                     ''.message), {''),
     description = ''Fix { error: supabaseError.message } pattern''\<rparr>"

definition rule4 :: rule where
  "rule4 =
    \<lparr>search = search4,
     replace = (\<lambda>m. ''logger.error('' @ group m 1 @ '', new Error('' @ group m 2 @
                     ''.message))''),
     description = ''Fix { error: supabaseError.message } (only property) pattern''\<rparr>"

definition rule5 :: rule where
  "rule5 =
    \<lparr>search = search5,
     replace = (\<lambda>m. ''logger.error('' @ group m 1 @ '', new Error(result.error))''),
     description = ''Fix { error: result.error } pattern''\<rparr>"

definition rule6 :: rule where
  "rule6 =
    \<lparr>search = search6,
     replace = (\<lambda>m. ''logger.error('' @ group m 1 @
                     '', err instanceof Error ? err : new Error(String(err)))''),
     description = ''Fix { error: err instanceof Error ? err.message : ... } pattern''\<rparr>"

definition rule7 :: rule where
  "rule7 =
    \<lparr>search = search7,
     replace = (\<lambda>m. ''logger.error('' @ group m 1 @ '', new Error('' @ group m 3 @
                     ''.message), { '' @ group m 2 @ ''Type: '' @ [CHR 39] @ group m 2 @
                     [CHR 39] @ '',''),
     description = ''Fix { namedError: error.message } pattern''\<rparr>"

definition rule8 :: rule where
  "rule8 =
    \<lparr>search = search8,
     replace = (\<lambda>m. ''logger.error('' @ group m 1 @ '', '' @ group m 2 @ '', {''),
     description = ''Fix { error: err.message, stack: err.stack } pattern''\<rparr>"

definition PATTERNS :: "rule list" where
  "PATTERNS = [rule1, rule2, rule3, rule4, rule5, rule6, rule7, rule8]"

text \<open>The loop of \<^verbatim>\<open>fix_file\<close> over the table: the content and the count after all rules.\<close>

fun apply_patterns :: "rule list \<Rightarrow> string \<Rightarrow> nat \<Rightarrow> string \<times> nat" where
  "apply_patterns [] content fixes_count = (content, fixes_count)"
| "apply_patterns (pattern # ps) content fixes_count =
     (let matches = re_findall (search pattern) content
      in if matches \<noteq> []
         then apply_patterns ps (re_sub (search pattern) (replace pattern) content)
                (fixes_count + length matches)
         else apply_patterns ps content fixes_count)"

section \<open>File selection\<close>

fun str_contains :: "string \<Rightarrow> string \<Rightarrow> bool" where
  \<comment> \<open>Python's \<^verbatim>\<open>sub in s\<close> on strings\<close>
  "str_contains sub [] = (sub = [])"
| "str_contains sub (c # s) = (prefix sub (c # s) \<or> str_contains sub s)"

definition skip_patterns :: "string list" where
  "skip_patterns =
    [''node_modules'', ''.git'', ''coverage'', ''dist'', ''build'', ''.next'', ''DEBUG.md'',
     ''fix-logger-errors.py'', ''logger.ts'']"

definition should_skip_file :: "string \<Rightarrow> bool" where
  "should_skip_file filepath = list_ex (\<lambda>pattern. str_contains pattern filepath) skip_patterns"

text \<open>
  The files. Opening or decoding a file may raise, and so may writing it back; an
  exception is kept as its message text. A failed write leaves on disk whatever the
  operating system left there, which the environment chooses.
\<close>

datatype write_outcome =
    WriteOk
  | WriteFails string "string + string"  \<comment> \<open>the exception, and the state of the file afterwards\<close>

record disk_file =
  data :: "string + string"     \<comment> \<open>\<open>Inl e\<close>: reading raises \<open>e\<close>; \<open>Inr c\<close>: reading gives \<open>c\<close>\<close>
  on_write :: write_outcome

text \<open>
  \<open>listing\<close> holds the paths below the root directory \<^verbatim>\<open>Path(__file__).parent / 'src'\<close> in
  the order in which \<^verbatim>\<open>rglob\<close> walks them, each written relative to the directory of the
  script; with \<open>base\<close> the text of that directory (empty, or ending in the separator),
  \<^verbatim>\<open>str(filepath)\<close> is \<open>base @ p\<close> and \<^verbatim>\<open>filepath.relative_to(Path(__file__).parent)\<close> is \<open>p\<close>.
\<close>

record world =
  listing :: "string list"
  files :: "string \<Rightarrow> disk_file"

definition rglob :: "world \<Rightarrow> string \<Rightarrow> string list" where
  \<comment> \<open>\<^verbatim>\<open>root_path.rglob('*' + ext)\<close>\<close>
  "rglob w ext = filter (\<lambda>p. suffix ext p) (listing w)"

definition trigger :: string where
  "trigger = ''logger.error(''"

definition selected :: "string \<Rightarrow> world \<Rightarrow> string \<Rightarrow> bool" where
  \<comment> \<open>the body of the inner loop of \<^verbatim>\<open>find_files_with_logger_errors\<close>: is the path appended?\<close>
  "selected base w filepath =
     (if should_skip_file (base @ filepath) then False
      else (case data (files w filepath) of
              Inl e \<Rightarrow> False
            | Inr content \<Rightarrow> str_contains trigger content))"

definition find_files_with_logger_errors :: "string \<Rightarrow> world \<Rightarrow> string list" where
  "find_files_with_logger_errors base w =
     concat (map (\<lambda>ext. filter (selected base w) (rglob w ext)) [''.ts'', ''.tsx''])"

section \<open>Rewriting one file, and the run\<close>

datatype line =
    Plain string                   \<comment> \<open>a line of fixed text\<close>
  | Scanning string                \<comment> \<open>Scanning ... for files with logger.error() calls...\<close>
  | Found nat                      \<comment> \<open>Found n files with logger.error() calls\<close>
  | ErrorProcessing string string  \<comment> \<open>Error processing filepath: e\<close>
  | FixedIssues nat string         \<comment> \<open>Fixed n issue(s) in rel\_path\<close>
  | TotalScanned nat               \<comment> \<open>Total files scanned: n\<close>
  | TotalFixed nat                 \<comment> \<open>Total files fixed: n\<close>
  | TotalFixes nat                 \<comment> \<open>Total fixes applied: n\<close>
  | FixedFile string               \<comment> \<open>one entry of the list of fixed files\<close>

definition write_file :: "world \<Rightarrow> string \<Rightarrow> string \<Rightarrow> string + world" where
  \<comment> \<open>\<^verbatim>\<open>with open(filepath, 'w', encoding='utf-8') as f: f.write(content)\<close>\<close>
  "write_file w filepath content =
     (case on_write (files w filepath) of
        WriteOk \<Rightarrow> Inr (w\<lparr>files := (files w)(filepath := (files w filepath)\<lparr>data := Inr content\<rparr>)\<rparr>)
      | WriteFails e left \<Rightarrow> Inl e)"

definition after_failed_write :: "world \<Rightarrow> string \<Rightarrow> world" where
  "after_failed_write w filepath =
     (case on_write (files w filepath) of
        WriteOk \<Rightarrow> w
      | WriteFails e left \<Rightarrow> w\<lparr>files := (files w)(filepath := (files w filepath)\<lparr>data := left\<rparr>)\<rparr>)"

definition fix_file :: "string \<Rightarrow> world \<Rightarrow> string \<Rightarrow> world \<times> line list \<times> bool \<times> nat" where
  "fix_file base w filepath =
     (case data (files w filepath) of
        Inl e \<Rightarrow> (w, [ErrorProcessing (base @ filepath) e], False, 0)
      | Inr original_content \<Rightarrow>
          (case apply_patterns PATTERNS original_content 0 of
             (content, fixes_count) \<Rightarrow>
               if content \<noteq> original_content
               then (case write_file w filepath content of
                       Inr w' \<Rightarrow> (w', [], True, fixes_count)
                     | Inl e \<Rightarrow> (after_failed_write w filepath,
                                 [ErrorProcessing (base @ filepath) e], False, 0))
               else (w, [], False, 0)))"

text \<open>The loop of \<^verbatim>\<open>main\<close> over the selected files.\<close>

fun fix_each ::
  "string \<Rightarrow> string list \<Rightarrow> world \<Rightarrow> string list \<Rightarrow> nat \<Rightarrow> line list \<Rightarrow>
   world \<times> string list \<times> nat \<times> line list" where
  "fix_each base [] w fixed_files total_fixes out = (w, fixed_files, total_fixes, out)"
| "fix_each base (filepath # rest) w fixed_files total_fixes out =
     (case fix_file base w filepath of
        (w', msgs, modified, fixes) \<Rightarrow>
          if modified
          then fix_each base rest w' (fixed_files @ [filepath]) (total_fixes + fixes)
                 (out @ msgs @ [FixedIssues fixes filepath])
          else fix_each base rest w' fixed_files total_fixes (out @ msgs))"

record summary =
  scanned :: nat
  changed_files :: "string list"
  fixes_applied :: nat

definition banner :: "string \<Rightarrow> line list" where
  "banner title = [Plain (replicate 80 CHR ''=''), Plain title, Plain (replicate 80 CHR ''=''), Plain []]"

definition main :: "string \<Rightarrow> world \<Rightarrow> world \<times> line list \<times> summary" where
  "main base w =
     (let files = find_files_with_logger_errors base w;
          out0 = banner ''Logger.error() API Fix Script'' @
                 [Scanning (base @ ''src''), Found (length files), Plain []]
      in case fix_each base files w [] 0 out0 of
           (w', fixed_files, total_fixes, out1) \<Rightarrow>
             (w',
              out1 @ [Plain []] @ take 3 (banner ''Summary'') @
              [TotalScanned (length files), TotalFixed (length fixed_files),
               TotalFixes total_fixes, Plain []] @
              (if fixed_files \<noteq> []
               then Plain ''Fixed files:'' # map FixedFile (sort fixed_files)
               else [Plain ''No files needed fixing (or all already fixed manually)'']) @
              [Plain [], Plain ''Next steps:'', Plain ''1. Review the changes with git diff'',
               Plain ''2. Run: npx tsc --noEmit'', Plain ''3. Run tests: npm test'',
               Plain ''4. Commit changes''],
              \<lparr>scanned = length files, changed_files = sort fixed_files,
               fixes_applied = total_fixes\<rparr>))"

section \<open>A small project tree\<close>

definition example_world :: world where
  "example_world =
    \<lparr>listing = [''src/a.ts'', ''src/node_modules/b.ts'', ''src/c.tsx'', ''src/d.ts'', ''src/e.ts''],
     files = (\<lambda>p.
       if p = ''src/a.ts'' then
         \<lparr>data = Inr ''logger.error(x, { error: errorMessage })'', on_write = WriteOk\<rparr>
       else if p = ''src/node_modules/b.ts'' then
         \<lparr>data = Inr ''logger.error(x, { error: errorMessage })'', on_write = WriteOk\<rparr>
       else if p = ''src/c.tsx'' then
         \<lparr>data = Inr ''const x = 1'', on_write = WriteOk\<rparr>
       else if p = ''src/d.ts'' then
         \<lparr>data = Inr ''logger.error(x, { error: result.error })'',
          on_write = WriteFails ''Read-only file system''
                       (Inr ''logger.error(x, { error: result.error })'')\<rparr>
       else if p = ''src/e.ts'' then
         \<lparr>data = Inr ''logger.error(x)'', on_write = WriteOk\<rparr>
       else \<lparr>data = Inl ''No such file or directory'',
             on_write = WriteFails ''No such file or directory''
                          (Inl ''No such file or directory'')\<rparr>)\<rparr>"

section \<open>Calls and segments\<close>

text \<open>
  Notions used to reason about the table: every search pattern starts with the text of the
  call, the first argument up to the next comma, and that comma; what follows the comma
  decides whether a rule matches.
\<close>

definition rejects :: "cclass \<Rightarrow> tok list \<Rightarrow> bool" where
  "rejects k ts = (\<forall>x s os gs. in_class k x \<longrightarrow> re_match ts (x # s) os gs = None)"

fun tok_groups :: "tok \<Rightarrow> nat set" where
  "tok_groups (GOpen n) = {n}"
| "tok_groups (GClose n) = {n}"
| "tok_groups (Backref n) = {n}"
| "tok_groups _ = {}"

definition first_seg :: "string \<Rightarrow> string" where
  "first_seg s = takeWhile (\<lambda>c. c \<noteq> CHR '','') s"

definition from_comma :: "string \<Rightarrow> string" where
  "from_comma s = dropWhile (\<lambda>c. c \<noteq> CHR '','') s"

fun has_call :: "string \<Rightarrow> bool" where
  "has_call [] = False"
| "has_call (c # s) = (prefix trigger (c # s) \<and> length trigger < length (c # s) \<or> has_call s)"

definition call_open :: "tok list" where
  "call_open = lit trigger @ [GOpen 1, Plus NotComma, GClose 1, Lit CHR '','']"

definition tail_of :: "tok list \<Rightarrow> tok list" where
  "tail_of p = drop (length call_open) p"

definition rest_of :: "(groups \<Rightarrow> string) \<Rightarrow> groups \<Rightarrow> string" where
  "rest_of f g = drop (length trigger) (f (g @ [(1, [])]))"

definition rule_ok :: "rule \<Rightarrow> bool" where
  "rule_ok p = (search p = call_open @ tail_of (search p) \<and>
     (\<forall>t\<in>set (tail_of (search p)). 1 \<notin> tok_groups t) \<and>
     (\<forall>g g1. map_of g 1 = None \<longrightarrow>
        replace p (g @ [(1, g1)]) = trigger @ g1 @ rest_of (replace p) g))"

section \<open>Evaluation on concrete texts\<close>

lemmas table_defs = PATTERNS_def rule1_def rule2_def rule3_def rule4_def rule5_def
  rule6_def rule7_def rule8_def search1_def search2_def search3_def search4_def search5_def
  search6_def search7_def search8_def head_def lit_def match_at_def group_def
  is_space_def is_letter_def is_word_def

lemma apply_only_errorMessage:
  "apply_patterns PATTERNS ''logger.error(x, { error: errorMessage })'' 0 =
     (''logger.error(x, new Error(errorMessage))'', 1)"
  by (simp add: table_defs)

lemma apply_result_error:
  "apply_patterns PATTERNS ''logger.error(x, { error: result.error })'' 0 =
     (''logger.error(x, new Error(result.error))'', 1)"
  by (simp add: table_defs)

lemma apply_no_object: "apply_patterns PATTERNS ''logger.error(x)'' 0 = (''logger.error(x)'', 0)"
  by (simp add: table_defs)

section \<open>The matcher\<close>

lemma re_match_Nil [simp]:
  "re_match (Lit c # ts) [] os gs = None"
  "re_match (Plus k # ts) [] os gs = None"
  "re_match (Star k # ts) [] os gs = re_match ts [] os gs"
  by simp_all

lemma re_match_Cons [simp]:
  "re_match (Lit c # ts) (x # s) os gs = (if x = c then re_match ts s os gs else None)"
  "re_match (Plus k # ts) (x # s) os gs =
     (if in_class k x then re_match (Star k # ts) s os gs else None)"
  "re_match (Star k # ts) (x # s) os gs =
     (if in_class k x
      then (case re_match (Star k # ts) s os gs of
              Some r \<Rightarrow> Some r
            | None \<Rightarrow> re_match ts (x # s) os gs)
      else re_match ts (x # s) os gs)"
  by simp_all

declare re_match.simps(2,3,4) [simp del]

lemma re_match_lit:
  "re_match (lit w @ ts) s os gs =
     (if prefix w s then re_match ts (drop (length w) s) os gs else None)"
proof (induction w arbitrary: s)
  case Nil
  show ?case by (simp add: lit_def)
next
  case (Cons c w)
  then show ?case by (cases s) (auto simp: lit_def)
qed

lemma re_match_suffix: "re_match ts s os gs = Some (r, g) \<Longrightarrow> suffix r s"
proof (induction ts s os gs arbitrary: r g rule: re_match.induct)
  case (1 s os gs)
  then show ?case by simp
next
  case (2 c ts s os gs)
  then show ?case by (cases s) (auto split: if_splits intro: suffix_ConsI)
next
  case (3 k ts s os gs)
  then show ?case by (cases s) (auto split: if_splits intro: suffix_ConsI)
next
  case (4 k ts s os gs)
  then show ?case by (cases s) (auto split: if_splits option.splits intro: suffix_ConsI)
next
  case (5 n ts s os gs)
  then show ?case by simp
next
  case (6 n ts s os gs)
  then show ?case by (auto split: option.splits)
next
  case (7 n ts s os gs)
  then show ?case
    by (auto split: option.splits if_splits intro: suffix_order.trans[OF _ suffix_drop])
qed

lemma star_det:
  "rejects k ts \<Longrightarrow>
   re_match (Star k # ts) s os gs = re_match ts (dropWhile (in_class k) s) os gs"
  by (induction s) (auto simp: rejects_def split: option.splits)

lemma star_greedy:
  "\<forall>x\<in>set u. in_class k x \<Longrightarrow> re_match (Star k # ts) v os gs = Some r \<Longrightarrow>
   re_match (Star k # ts) (u @ v) os gs = Some r"
  by (induction u) auto

lemma re_match_extra_group:
  "\<forall>t\<in>set ts. m \<notin> tok_groups t \<Longrightarrow>
   re_match ts s (os @ [(m, a)]) (gs @ [(m, b)]) =
     map_option (\<lambda>(r, g). (r, g @ [(m, b)])) (re_match ts s os gs)"
proof (induction ts s os gs rule: re_match.induct)
  case (1 s os gs)
  then show ?case by simp
next
  case (2 c ts s os gs)
  then show ?case by (cases s) auto
next
  case (3 k ts s os gs)
  then show ?case by (cases s) auto
next
  case (4 k ts s os gs)
  then show ?case by (cases s) (auto split: option.splits)
next
  case (5 n ts s os gs)
  from 5(1)[of ] 5(2) show ?case by simp
next
  case (6 n ts s os gs)
  then show ?case by (auto simp: map_add_def split: option.splits)
next
  case (7 n ts s os gs)
  then show ?case by (auto simp: map_add_def split: option.splits)
qed

lemma re_match_keeps_group:
  "re_match ts s os gs = Some (r, g) \<Longrightarrow> GClose n \<notin> set ts \<Longrightarrow> map_of g n = map_of gs n"
proof (induction ts s os gs arbitrary: r g rule: re_match.induct)
  case (1 s os gs)
  then show ?case by simp
next
  case (2 c ts s os gs)
  then show ?case by (cases s) (auto split: if_splits)
next
  case (3 k ts s os gs)
  then show ?case by (cases s) (auto split: if_splits)
next
  case (4 k ts s os gs)
  then show ?case by (cases s) (auto split: if_splits option.splits)
next
  case (5 n ts s os gs)
  then show ?case by simp
next
  case (6 m ts s os gs)
  then show ?case by (auto split: option.splits)
next
  case (7 n ts s os gs)
  then show ?case by (auto split: option.splits if_splits)
qed

lemma re_match_prefix_pattern:
  "re_match (ts @ ts') s os gs \<noteq> None \<Longrightarrow> re_match ts s os gs \<noteq> None"
proof (induction ts s os gs rule: re_match.induct)
  case (1 s os gs)
  then show ?case by simp
next
  case (2 c ts s os gs)
  then show ?case by (cases s) (auto split: if_splits)
next
  case (3 k ts s os gs)
  then show ?case by (cases s) (auto split: if_splits)
next
  case (4 k ts s os gs)
  then show ?case by (cases s) (auto split: if_splits option.splits)
next
  case (5 n ts s os gs)
  then show ?case by simp
next
  case (6 m ts s os gs)
  then show ?case by (auto split: option.splits)
next
  case (7 n ts s os gs)
  then show ?case by (auto split: option.splits if_splits)
qed

section \<open>Matches seen from the comma behind the first argument\<close>

lemma re_sub_Nil: "re_sub p f [] = (case match_at p [] of Some (r, g) \<Rightarrow> f g | None \<Rightarrow> [])"
  by (simp split: option.splits)

lemma re_sub_Cons:
  "re_sub p f (c # s) =
     (case match_at p (c # s) of
        Some (r, g) \<Rightarrow> if length r < Suc (length s) then f g @ re_sub p f r
                       else f g @ c # re_sub p f s
      | None \<Rightarrow> c # re_sub p f s)"
  by (simp split: option.splits)

lemma re_findall_Nil:
  "re_findall p [] = (case match_at p [] of Some (r, g) \<Rightarrow> [g] | None \<Rightarrow> [])"
  by (simp split: option.splits)

lemma re_findall_Cons:
  "re_findall p (c # s) =
     (case match_at p (c # s) of
        Some (r, g) \<Rightarrow> if length r < Suc (length s) then g # re_findall p r
                       else g # re_findall p s
      | None \<Rightarrow> re_findall p s)"
  by (simp split: option.splits)

declare re_sub.simps [simp del] re_findall.simps [simp del]

declare re_sub_Nil [simp] re_sub_Cons [simp] re_findall_Nil [simp] re_findall_Cons [simp]

lemma seg_simps [simp]:
  "first_seg [] = []" "from_comma [] = []"
  "first_seg (CHR '','' # s) = []" "from_comma (CHR '','' # s) = CHR '','' # s"
  "c \<noteq> CHR '','' \<Longrightarrow> first_seg (c # s) = c # first_seg s"
  "c \<noteq> CHR '','' \<Longrightarrow> from_comma (c # s) = from_comma s"
  by (simp_all add: first_seg_def from_comma_def)

lemma seg_append [simp]: "first_seg s @ from_comma s = s"
  by (simp add: first_seg_def from_comma_def)

lemma seg_no_comma: "CHR '','' \<notin> set (first_seg s)"
  by (induction s) (auto simp: first_seg_def)

lemma from_comma_Cons: "from_comma s = c # t \<Longrightarrow> c = CHR '',''"
  unfolding from_comma_def using hd_dropWhile[of "\<lambda>c. c \<noteq> CHR '',''" s] by force

lemma seg_split:
  "CHR '','' \<notin> set a \<Longrightarrow> first_seg (a @ CHR '','' # t) = a \<and> from_comma (a @ CHR '','' # t) = CHR '','' # t"
  by (induction a) auto

lemma seg_append_nocomma:
  "CHR '','' \<notin> set a \<Longrightarrow> first_seg (a @ s) = a @ first_seg s \<and> from_comma (a @ s) = from_comma s"
  by (induction a) auto

lemma length_from_comma: "length (from_comma s) \<le> length s"
  by (simp add: from_comma_def length_dropWhile_le)

lemma rejects_close_comma: "rejects NotComma (GClose n # Lit CHR '','' # T)"
  by (auto simp: rejects_def split: option.splits)

lemma take_dropWhile: "take (length u - length (dropWhile P u)) u = takeWhile P u"
proof -
  have "length u - length (dropWhile P u) = length (takeWhile P u)"
    by (metis add_diff_cancel_right' length_append takeWhile_dropWhile_id)
  then show ?thesis by (simp add: takeWhile_eq_take[symmetric])
qed

lemma in_class_NotComma: "in_class NotComma = (\<lambda>c. c \<noteq> CHR '','')"
  by (simp add: fun_eq_iff)

lemma match_after_trigger:
  assumes "\<forall>t\<in>set T. 1 \<notin> tok_groups t"
  shows "re_match (GOpen 1 # Plus NotComma # GClose 1 # Lit CHR '','' # T) u [] [] =
     (if first_seg u \<noteq> [] \<and> from_comma u \<noteq> []
      then map_option (\<lambda>(r, g). (r, g @ [(1, first_seg u)])) (match_at T (tl (from_comma u)))
      else None)"
proof (cases u)
  case Nil
  then show ?thesis by simp
next
  case (Cons x u')
  show ?thesis
  proof (cases "x = CHR '',''")
    case True
    with Cons show ?thesis by simp
  next
    case False
    let ?d = "from_comma u"
    have d: "dropWhile (in_class NotComma) u' = ?d"
      using Cons False by (simp add: in_class_NotComma from_comma_def)
    have cap: "take (length u - length ?d) u = first_seg u"
      by (simp add: take_dropWhile first_seg_def from_comma_def)
    have fs: "first_seg u \<noteq> []" using Cons False by simp
    have "re_match (GOpen 1 # Plus NotComma # GClose 1 # Lit CHR '','' # T) u [] [] =
          re_match (Star NotComma # GClose 1 # Lit CHR '','' # T) u' [(1, u)] []"
      using Cons False by simp
    also have "\<dots> = re_match (GClose 1 # Lit CHR '','' # T) ?d [(1, u)] []"
      by (simp only: star_det[OF rejects_close_comma] d)
    also have "\<dots> = re_match (Lit CHR '','' # T) ?d [(1, u)] [(1, first_seg u)]"
      by (simp add: cap)
    also have "\<dots> = (if ?d \<noteq> []
        then re_match T (tl ?d) ([] @ [(1, u)]) ([] @ [(1, first_seg u)]) else None)"
      using from_comma_Cons[of u] by (cases ?d) auto
    also have "\<dots> = (if ?d \<noteq> []
        then map_option (\<lambda>(r, g). (r, g @ [(1, first_seg u)])) (match_at T (tl ?d)) else None)"
      by (simp only: re_match_extra_group[OF assms] match_at_def)
    finally show ?thesis using fs by simp
  qed
qed

lemma trigger_no_comma: "CHR '','' \<notin> set trigger"
  by (simp add: trigger_def)

lemma trigger_simps [simp]: "\<not> prefix trigger []" "length trigger = 13" "trigger \<noteq> []"
  by (simp_all add: trigger_def)

lemma match_call_open:
  assumes "\<forall>t\<in>set T. 1 \<notin> tok_groups t"
  shows "match_at (call_open @ T) s =
     (if prefix trigger (first_seg s) \<and> length trigger < length (first_seg s) \<and> from_comma s \<noteq> []
      then map_option (\<lambda>(r, g). (r, g @ [(1, drop (length trigger) (first_seg s))]))
             (match_at T (tl (from_comma s)))
      else None)"
proof -
  have unf: "match_at (call_open @ T) x =
      re_match (lit trigger @ (GOpen 1 # Plus NotComma # GClose 1 # Lit CHR '','' # T)) x [] []" for x
    by (simp add: match_at_def call_open_def)
  show ?thesis
  proof (cases "prefix trigger s")
    case False
    have "prefix (first_seg s) s" by (simp add: first_seg_def takeWhile_is_prefix)
    with False have "\<not> prefix trigger (first_seg s)" using prefix_order.trans by blast
    with False show ?thesis
      by (simp only: unf re_match_lit if_False simp_thms)
  next
    case True
    then obtain u where s: "s = trigger @ u" by (auto simp: prefix_def)
    have a: "first_seg s = trigger @ first_seg u" "from_comma s = from_comma u"
      using seg_append_nocomma[OF trigger_no_comma, of u] by (simp_all add: s)
    have "match_at (call_open @ T) s =
          re_match (GOpen 1 # Plus NotComma # GClose 1 # Lit CHR '','' # T) u [] []"
      unfolding s by (simp only: unf re_match_lit) simp
    also note match_after_trigger[OF assms]
    finally show ?thesis by (simp add: a)
  qed
qed

lemma match_at_shorter: "match_at T t = Some (r, g) \<Longrightarrow> length r \<le> length t"
  unfolding match_at_def by (drule re_match_suffix) (rule suffix_length_le)

lemma tl_from_comma_shorter: "from_comma s \<noteq> [] \<Longrightarrow> length (tl (from_comma s)) < length s"
  using length_from_comma[of s] by (cases "from_comma s") auto

lemma has_call_first:
  "prefix trigger seg \<Longrightarrow> length trigger < length seg \<Longrightarrow> has_call seg"
  by (cases seg) auto

lemma re_sub_call:
  assumes T: "\<forall>t\<in>set T. 1 \<notin> tok_groups t"
      and f: "\<And>t r g' g1. match_at T t = Some (r, g') \<Longrightarrow> f (g' @ [(1, g1)]) = trigger @ g1 @ R g'"
  shows "re_sub (call_open @ T) f s =
     (case from_comma s of [] \<Rightarrow> s
      | c # t \<Rightarrow>
         (if has_call (first_seg s)
          then (case match_at T t of
                  Some (r, g') \<Rightarrow> first_seg s @ R g' @ re_sub (call_open @ T) f r
                | None \<Rightarrow> first_seg s @ CHR '','' # re_sub (call_open @ T) f t)
          else first_seg s @ CHR '','' # re_sub (call_open @ T) f t))"
proof (induction s)
  case Nil
  show ?case by (simp add: match_call_open[OF T])
next
  case (Cons c s)
  let ?p = "call_open @ T"
  show ?case
  proof (cases "c = CHR '',''")
    case True
    then show ?thesis
      by (simp add: match_call_open[OF T])
  next
    case False
    show ?thesis
    proof (cases "from_comma s")
      case Nil
      with False Cons.IH show ?thesis
        by (simp add: match_call_open[OF T])
    next
      case (Cons d t)
      let ?hit = "prefix trigger (c # first_seg s) \<and> length trigger < length (c # first_seg s)"
      show ?thesis
      proof (cases "?hit \<and> match_at T t \<noteq> None")
        case True
        then obtain r g' where m: "match_at T t = Some (r, g')" by auto
        from True have pre: "trigger @ drop (length trigger) (c # first_seg s) = c # first_seg s"
          by (metis append_eq_conv_conj prefix_def)
        have len: "length r < length (c # s)"
          using match_at_shorter[OF m] tl_from_comma_shorter[of s] Cons by simp
        have "match_at ?p (c # s) = Some (r, g' @ [(1, drop (length trigger) (c # first_seg s))])"
          using True False Cons m by (simp add: match_call_open[OF T])
        then have "re_sub ?p f (c # s) = f (g' @ [(1, drop (length trigger) (c # first_seg s))]) @ re_sub ?p f r"
          using len by simp
        also have "\<dots> = (c # first_seg s) @ R g' @ re_sub ?p f r"
          using f[OF m] pre by simp
        finally show ?thesis
          using True False Cons m by (simp add: has_call_first)
      next
        case False
        then have no: "\<not> ?hit \<or> match_at T t = None" by blast
        then have "match_at ?p (c # s) = None"
          using \<open>c \<noteq> CHR '',''\<close> Cons by (auto simp: match_call_open[OF T])
        then have "re_sub ?p f (c # s) = c # re_sub ?p f s"
          by simp
        with Cons.IH no \<open>c \<noteq> CHR '',''\<close> Cons show ?thesis
          by (auto split: option.splits)
      qed
    qed
  qed
qed

lemma re_findall_call:
  assumes T: "\<forall>t\<in>set T. 1 \<notin> tok_groups t"
  shows "length (re_findall (call_open @ T) s) =
     (case from_comma s of [] \<Rightarrow> 0
      | c # t \<Rightarrow>
         (if has_call (first_seg s)
          then (case match_at T t of
                  Some (r, g') \<Rightarrow> Suc (length (re_findall (call_open @ T) r))
                | None \<Rightarrow> length (re_findall (call_open @ T) t))
          else length (re_findall (call_open @ T) t)))"
proof (induction s)
  case Nil
  show ?case by (simp add: match_call_open[OF T])
next
  case (Cons c s)
  let ?p = "call_open @ T"
  show ?case
  proof (cases "c = CHR '',''")
    case True
    then show ?thesis
      by (simp add: match_call_open[OF T])
  next
    case False
    show ?thesis
    proof (cases "from_comma s")
      case Nil
      with False Cons.IH show ?thesis
        by (simp add: match_call_open[OF T])
    next
      case (Cons d t)
      let ?hit = "prefix trigger (c # first_seg s) \<and> length trigger < length (c # first_seg s)"
      show ?thesis
      proof (cases "?hit \<and> match_at T t \<noteq> None")
        case True
        then obtain r g' where m: "match_at T t = Some (r, g')" by auto
        have len: "length r < length (c # s)"
          using match_at_shorter[OF m] tl_from_comma_shorter[of s] Cons by simp
        have "match_at ?p (c # s) = Some (r, g' @ [(1, drop (length trigger) (c # first_seg s))])"
          using True False Cons m by (simp add: match_call_open[OF T])
        then have "re_findall ?p (c # s) =
            (g' @ [(1, drop (length trigger) (c # first_seg s))]) # re_findall ?p r"
          using len by simp
        then show ?thesis
          using True False Cons m by (simp add: has_call_first)
      next
        case False
        then have no: "\<not> ?hit \<or> match_at T t = None" by blast
        then have "match_at ?p (c # s) = None"
          using \<open>c \<noteq> CHR '',''\<close> Cons by (auto simp: match_call_open[OF T])
        then have "re_findall ?p (c # s) = re_findall ?p s"
          by simp
        with Cons.IH no \<open>c \<noteq> CHR '',''\<close> Cons show ?thesis
          by (auto split: option.splits)
      qed
    qed
  qed
qed

section \<open>The rules of the table\<close>

lemma group_appended:
  "map_of g (Suc 0) = None \<Longrightarrow> group (g @ [(Suc 0, g1)]) (Suc 0) = g1"
  "n \<noteq> Suc 0 \<Longrightarrow> group (g @ [(Suc 0, g1)]) n = group g n"
  by (auto simp: group_def map_add_def split: option.splits)

lemma rules_ok:
  "rule_ok rule1" "rule_ok rule2" "rule_ok rule3" "rule_ok rule4"
  "rule_ok rule5" "rule_ok rule6" "rule_ok rule7" "rule_ok rule8"
  by (simp_all add: rule1_def rule2_def rule3_def rule4_def rule5_def rule6_def rule7_def
        rule8_def rule_ok_def tail_of_def rest_of_def call_open_def trigger_def
        search1_def search2_def search3_def search4_def search5_def search6_def search7_def
        search8_def head_def lit_def group_appended)

lemma tail_no_close: "rule_ok p \<Longrightarrow> GClose 1 \<notin> set (tail_of (search p))"
  by (force simp: rule_ok_def)

lemma tail_match_group1:
  assumes "rule_ok p" "match_at (tail_of (search p)) t = Some (r, g)"
  shows "map_of g 1 = None"
  using re_match_keeps_group[OF assms(2)[unfolded match_at_def] tail_no_close[OF assms(1)]]
  by simp

lemma rule_sub:
  assumes ok: "rule_ok p"
  shows "re_sub (search p) (replace p) s =
     (case from_comma s of [] \<Rightarrow> s
      | c # t \<Rightarrow>
         (if has_call (first_seg s)
          then (case match_at (tail_of (search p)) t of
                  Some (r, g) \<Rightarrow> first_seg s @ rest_of (replace p) g @ re_sub (search p) (replace p) r
                | None \<Rightarrow> first_seg s @ CHR '','' # re_sub (search p) (replace p) t)
          else first_seg s @ CHR '','' # re_sub (search p) (replace p) t))"
proof -
  let ?T = "tail_of (search p)"
  have T: "\<forall>t\<in>set ?T. 1 \<notin> tok_groups t" using ok by (simp add: rule_ok_def)
  have f: "\<And>t r g g1. match_at ?T t = Some (r, g) \<Longrightarrow>
      replace p (g @ [(1, g1)]) = trigger @ g1 @ rest_of (replace p) g"
    using ok tail_match_group1[OF ok] by (simp add: rule_ok_def)
  have sp: "search p = call_open @ ?T" using ok by (simp add: rule_ok_def)
  show ?thesis
    using re_sub_call[of ?T "replace p" "rest_of (replace p)" s, OF T f]
    by (simp only: sp[symmetric])
qed

lemma rule_findall:
  assumes ok: "rule_ok p"
  shows "length (re_findall (search p) s) =
     (case from_comma s of [] \<Rightarrow> 0
      | c # t \<Rightarrow>
         (if has_call (first_seg s)
          then (case match_at (tail_of (search p)) t of
                  Some (r, g) \<Rightarrow> Suc (length (re_findall (search p) r))
                | None \<Rightarrow> length (re_findall (search p) t))
          else length (re_findall (search p) t)))"
proof -
  let ?T = "tail_of (search p)"
  have T: "\<forall>t\<in>set ?T. 1 \<notin> tok_groups t" using ok by (simp add: rule_ok_def)
  have sp: "search p = call_open @ ?T" using ok by (simp add: rule_ok_def)
  show ?thesis
    using re_findall_call[of ?T s, OF T] by (simp only: sp[symmetric])
qed

lemma from_comma_none: "CHR '','' \<notin> set s \<Longrightarrow> from_comma s = []"
  by (induction s) auto

lemma rule_no_comma:
  assumes "rule_ok p" "CHR '','' \<notin> set s"
  shows "re_findall (search p) s = []" "re_sub (search p) (replace p) s = s"
  using rule_findall[OF assms(1), of s] rule_sub[OF assms(1), of s] from_comma_none[OF assms(2)]
  by simp_all

lemma has_call_append: "has_call b \<Longrightarrow> has_call (a @ b)"
  by (induction a) auto

lemma has_call_trigger: "X \<noteq> [] \<Longrightarrow> has_call (a @ trigger @ X)"
  by (rule has_call_append, rule has_call_first) simp_all

lemma one_call_segs:
  assumes "CHR '','' \<notin> set a" "CHR '','' \<notin> set X"
  shows "first_seg (a @ trigger @ X @ CHR '','' # t) = a @ trigger @ X"
        "from_comma (a @ trigger @ X @ CHR '','' # t) = CHR '','' # t"
  using seg_split[of "a @ trigger @ X" t] assms trigger_no_comma by simp_all

lemma call_step_miss:
  assumes "rule_ok p" "X \<noteq> []" "CHR '','' \<notin> set a" "CHR '','' \<notin> set X" "CHR '','' \<notin> set t"
      and "match_at (tail_of (search p)) t = None"
  shows "apply_patterns (p # ps) (a @ trigger @ X @ CHR '','' # t) n =
         apply_patterns ps (a @ trigger @ X @ CHR '','' # t) n"
proof -
  have "length (re_findall (search p) (a @ trigger @ X @ CHR '','' # t)) = 0"
    using assms rule_no_comma(1)[OF assms(1,5)]
    by (simp add: rule_findall[OF assms(1), of "a @ trigger @ X @ CHR '','' # t"]
          one_call_segs[OF assms(3,4)] has_call_trigger)
  then show ?thesis by (simp add: Let_def)
qed

lemma call_step_hit:
  assumes "rule_ok p" "X \<noteq> []" "CHR '','' \<notin> set a" "CHR '','' \<notin> set X"
      and "match_at (tail_of (search p)) t = Some (r, g)" "CHR '','' \<notin> set r"
  shows "apply_patterns (p # ps) (a @ trigger @ X @ CHR '','' # t) n =
         apply_patterns ps (a @ trigger @ X @ rest_of (replace p) g @ r) (Suc n)"
proof -
  have c: "length (re_findall (search p) (a @ trigger @ X @ CHR '','' # t)) = 1"
    using assms rule_no_comma(1)[OF assms(1,6)]
    by (simp add: rule_findall[OF assms(1), of "a @ trigger @ X @ CHR '','' # t"]
          one_call_segs[OF assms(3,4)] has_call_trigger)
  have b: "re_sub (search p) (replace p) (a @ trigger @ X @ CHR '','' # t) =
        a @ trigger @ X @ rest_of (replace p) g @ r"
    using assms rule_no_comma(2)[OF assms(1,6)]
    by (simp add: rule_sub[OF assms(1), of "a @ trigger @ X @ CHR '','' # t"]
          one_call_segs[OF assms(3,4)] has_call_trigger)
  from c have "re_findall (search p) (a @ trigger @ X @ CHR '','' # t) \<noteq> []" by auto
  with c b show ?thesis by (simp add: Let_def)
qed

lemmas tail_defs = tail_of_def rest_of_def call_open_def trigger_def table_defs

lemma rejects_Lit: "\<not> in_class k c \<Longrightarrow> rejects k (Lit c # ts)"
  by (simp add: rejects_def)

lemma fallback_tail:
  assumes "x \<noteq> []" "\<forall>c\<in>set x. c \<noteq> CHR '','' \<and> c \<noteq> CHR ''}''"
  shows "re_match [Star Space, Plus NotCommaBrace, Star Space, Lit CHR ''}'', Star Space,
            Lit CHR '')''] (x @ ''})'' @ rest) os gs = Some (rest, gs)"
proof -
  let ?ts = "[Star Space, Lit CHR ''}'', Star Space, Lit CHR '')'']"
  have plus: "re_match (Plus NotCommaBrace # ?ts) (y @ ''})'' @ rest) os gs = Some (rest, gs)"
    if "y \<noteq> []" "\<forall>c\<in>set y. c \<noteq> CHR '','' \<and> c \<noteq> CHR ''}''" for y
  proof -
    from that obtain c y' where y: "y = c # y'" by (cases y) auto
    have base: "re_match (Star NotCommaBrace # ?ts) (''})'' @ rest) os gs = Some (rest, gs)"
      by (simp add: is_space_def)
    have cls: "\<forall>x\<in>set y'. in_class NotCommaBrace x"
      using that(2) y by simp
    have "re_match (Star NotCommaBrace # ?ts) (y' @ ''})'' @ rest) os gs = Some (rest, gs)"
      by (rule star_greedy[OF cls base])
    moreover have "in_class NotCommaBrace c" using that(2) y by simp
    ultimately show ?thesis unfolding y by (simp del: re_match_Cons(3))
  qed
  from assms show ?thesis
  proof (induction x)
    case Nil
    then show ?case by simp
  next
    case (Cons c x)
    show ?case
    proof (cases "x = []")
      case True
      with Cons.prems plus[of "[c]"] show ?thesis
        by (simp add: is_space_def)
    next
      case False
      with Cons have ih: "re_match [Star Space, Plus NotCommaBrace, Star Space, Lit CHR ''}'',
          Star Space, Lit CHR '')''] (x @ ''})'' @ rest) os gs = Some (rest, gs)"
        by simp
      from plus[of "c # x"] Cons.prems
      have p: "re_match (Plus NotCommaBrace # ?ts) (c # x @ ''})'' @ rest) os gs =
          Some (rest, gs)"
        by simp
      show ?thesis
        using ih p by (simp del: re_match_Cons(2))
    qed
  qed
qed

lemma instanceof_prefix:
  "match_at (tail_of (search rule6)) ('' { error: err instanceof Error ? err.message :'' @ y) =
   re_match [Star Space, Plus NotCommaBrace, Star Space, Lit CHR ''}'', Star Space,
            Lit CHR '')''] y [] []"
  by (simp add: tail_defs star_det rejects_Lit del: re_match_Cons(3))

section \<open>The loop over the rules and the loop over the files\<close>

lemma apply_patterns_count:
  "apply_patterns ps c n = (c', n') \<Longrightarrow> n \<le> n' \<and> (c' \<noteq> c \<longrightarrow> n < n')"
proof (induction ps arbitrary: c n)
  case Nil
  then show ?case by simp
next
  case (Cons p ps)
  show ?case
  proof (cases "re_findall (search p) c = []")
    case True
    with Cons.prems have "apply_patterns ps c n = (c', n')" by simp
    then show ?thesis by (rule Cons.IH)
  next
    case False
    with Cons.prems have
      "apply_patterns ps (re_sub (search p) (replace p) c)
         (n + length (re_findall (search p) c)) = (c', n')"
      by (simp add: Let_def)
    from Cons.IH[OF this] have "n + length (re_findall (search p) c) \<le> n'" by simp
    moreover from False have "0 < length (re_findall (search p) c)" by simp
    ultimately show ?thesis by linarith
  qed
qed

lemma fix_file_frame:
  assumes "fix_file base w p = (w', msgs, m, n)"
  shows "listing w' = listing w" and "q \<noteq> p \<Longrightarrow> files w' q = files w q"
  using assms
  by (auto simp: fix_file_def write_file_def after_failed_write_def
           split: sum.splits prod.splits if_splits write_outcome.splits)

lemma fix_each_frame:
  "fix_each base ps w fx t out = (w', fx', t', out') \<Longrightarrow>
     set fx' \<subseteq> set fx \<union> set ps \<and> (q \<notin> set ps \<longrightarrow> files w' q = files w q)"
proof (induction ps arbitrary: w fx t out)
  case Nil
  then show ?case by simp
next
  case (Cons p ps)
  obtain w1 msgs m n where ff: "fix_file base w p = (w1, msgs, m, n)"
    by (metis prod_cases4)
  have fr: "q \<noteq> p \<Longrightarrow> files w1 q = files w q"
    using fix_file_frame(2)[OF ff] .
  show ?case
  proof (cases m)
    case True
    with Cons.prems ff have
      "fix_each base ps w1 (fx @ [p]) (t + n) (out @ msgs @ [FixedIssues n p]) =
         (w', fx', t', out')"
      by simp
    from Cons.IH[OF this] fr show ?thesis by auto
  next
    case False
    with Cons.prems ff have "fix_each base ps w1 fx t (out @ msgs) = (w', fx', t', out')"
      by simp
    from Cons.IH[OF this] fr show ?thesis by auto
  qed
qed

lemma find_files_selected:
  "p \<in> set (find_files_with_logger_errors base w) \<Longrightarrow> selected base w p"
  by (auto simp: find_files_with_logger_errors_def)

section \<open>The claims\<close>

text \<open>
  C1. The specification asks that a call passing
  \<^verbatim>\<open>{ error: err.message, stack: err.stack }\<close> becomes, after one pass, a call passing
  \<^verbatim>\<open>err\<close> itself, with the \<^verbatim>\<open>stack\<close> property gone. The table has a rule for that
  shape, the last one, and alone it does what is asked on a call whose \<^verbatim>\<open>stack\<close>
  property is followed by a comma. In a pass it never gets the chance: the third rule
  (\<^verbatim>\<open>error: <identifier>.message\<close> followed by a comma) matches the same call first and
  wraps \<^verbatim>\<open>err.message\<close> in a new error, leaving \<^verbatim>\<open>stack: err.stack\<close> among the
  properties. Without a comma behind \<^verbatim>\<open>err.stack\<close> the last rule does not match at all.
\<close>

theorem C1_stack_rule_shadowed:
  "apply_patterns PATTERNS ''logger.error(x, { error: err.message, stack: err.stack })'' 0 =
     (''logger.error(x, new Error(err.message), { stack: err.stack })'', 1) \<and>
   apply_patterns PATTERNS ''logger.error(x, { error: err.message, stack: err.stack, id })'' 0 =
     (''logger.error(x, new Error(err.message), { stack: err.stack, id })'', 1) \<and>
   re_sub search8 (replace rule8)
     ''logger.error(x, { error: err.message, stack: err.stack, id })'' =
     ''logger.error(x, err, { id })'' \<and>
   re_findall search8 ''logger.error(x, { error: err.message, stack: err.stack })'' = []"
  by (simp add: table_defs)

text \<open>
  C3, as the specification states it: a call passing \<^verbatim>\<open>error\<close> bound to a conditional
  "check ? X.message : fallback" is rewritten so that the error argument is X when X is an
  error instance and otherwise a new error wrapping the stringified fallback of the
  original call. The rule's replacement text is fixed: it wraps \<^verbatim>\<open>String(err)\<close>, and the
  fallback of the call is dropped. The pattern also names the identifier \<^verbatim>\<open>err\<close> and the
  test \<^verbatim>\<open>instanceof Error\<close> literally, so a call with another identifier, or with a
  comparison against null, is left as it is.
\<close>

theorem C3_counterexample:
  "apply_patterns PATTERNS
     ''logger.error(x, { error: err instanceof Error ? err.message : fallback })'' 0 =
     (''logger.error(x, err instanceof Error ? err : new Error(String(err)))'', 1) \<and>
   fst (apply_patterns PATTERNS
     ''logger.error(x, { error: err instanceof Error ? err.message : fallback })'' 0) \<noteq>
     ''logger.error(x, err instanceof Error ? err : new Error(String(fallback)))'' \<and>
   apply_patterns PATTERNS
     ''logger.error(x, { error: e instanceof Error ? e.message : fallback })'' 0 =
     (''logger.error(x, { error: e instanceof Error ? e.message : fallback })'', 0) \<and>
   apply_patterns PATTERNS
     ''logger.error(x, { error: err != null ? err.message : fallback })'' 0 =
     (''logger.error(x, { error: err != null ? err.message : fallback })'', 0)"
  by (simp add: table_defs)

text \<open>
  C3, amended: in a text without further commas, a call
  \<^verbatim>\<open>logger.error(X, { error: err instanceof Error ? err.message : F })\<close>, where X is not
  empty and has no comma and F has neither a comma nor a closing brace, is rewritten by one
  pass to \<^verbatim>\<open>logger.error(X, err instanceof Error ? err : new Error(String(err)))\<close>, and
  counted as one fix: the error argument is \<^verbatim>\<open>err\<close> itself when it is an error instance
  and otherwise a new error wrapping the stringified \<^verbatim>\<open>err\<close>.
\<close>

theorem C3_instanceof_rewritten:
  assumes "X \<noteq> []" "CHR '','' \<notin> set X" "CHR '','' \<notin> set F" "CHR ''}'' \<notin> set F"
      and "CHR '','' \<notin> set pre" "CHR '','' \<notin> set post"
  shows "apply_patterns PATTERNS
      (pre @ ''logger.error('' @ X @ '', { error: err instanceof Error ? err.message : '' @ F @
         '' })'' @ post) 0 =
     (pre @ ''logger.error('' @ X @ '', err instanceof Error ? err : new Error(String(err)))'' @
        post, 1)"
proof -
  let ?t = "'' { error: err instanceof Error ? err.message : '' @ F @ '' })'' @ post"
  let ?t' = "'' err instanceof Error ? err : new Error(String(err)))'' @ post"
  note a = assms(1,5,2)
  have nc: "CHR '','' \<notin> set ?t" "CHR '','' \<notin> set ?t'" "CHR '','' \<notin> set post"
    using assms by simp_all
  have m1: "match_at (tail_of (search rule1)) ?t = None" by (simp add: tail_defs)
  have m2: "match_at (tail_of (search rule2)) ?t = None" by (simp add: tail_defs)
  have m3: "match_at (tail_of (search rule3)) ?t = None" by (simp add: tail_defs)
  have m4: "match_at (tail_of (search rule4)) ?t = None" by (simp add: tail_defs)
  have m5: "match_at (tail_of (search rule5)) ?t = None" by (simp add: tail_defs)
  have eq: "?t = '' { error: err instanceof Error ? err.message :'' @
      (('' '' @ F @ '' '') @ ''})'' @ post)"
    by simp
  have fb: "re_match [Star Space, Plus NotCommaBrace, Star Space, Lit CHR ''}'', Star Space,
      Lit CHR '')''] (('' '' @ F @ '' '') @ ''})'' @ post) [] [] = Some (post, [])"
    by (rule fallback_tail) (use assms in auto)
  have m6: "match_at (tail_of (search rule6)) ?t = Some (post, [])"
    by (subst eq) (simp only: instanceof_prefix fb)
  have r6: "rest_of (replace rule6) [] @ post = CHR '','' # ?t'" by (simp add: tail_defs)
  have m7: "match_at (tail_of (search rule7)) ?t' = None" by (simp add: tail_defs)
  have m8: "match_at (tail_of (search rule8)) ?t' = None" by (simp add: tail_defs)
  have "apply_patterns PATTERNS (pre @ trigger @ X @ CHR '','' # ?t) 0 =
        apply_patterns [rule6, rule7, rule8] (pre @ trigger @ X @ CHR '','' # ?t) 0"
    unfolding PATTERNS_def
    by (simp only: call_step_miss[OF rules_ok(1) a nc(1) m1]
          call_step_miss[OF rules_ok(2) a nc(1) m2]
          call_step_miss[OF rules_ok(3) a nc(1) m3]
          call_step_miss[OF rules_ok(4) a nc(1) m4]
          call_step_miss[OF rules_ok(5) a nc(1) m5])
  also have "\<dots> = apply_patterns [rule7, rule8] (pre @ trigger @ X @ CHR '','' # ?t') (Suc 0)"
    by (simp only: call_step_hit[OF rules_ok(6) a m6 nc(3)] r6)
  also have "\<dots> = (pre @ trigger @ X @ CHR '','' # ?t', Suc 0)"
    by (simp only: call_step_miss[OF rules_ok(7) a nc(2) m7]
          call_step_miss[OF rules_ok(8) a nc(2) m8] apply_patterns.simps(1))
  finally show ?thesis by (simp add: trigger_def)
qed

theorem C3_instanceof_rewritten_witness:
  "''x'' \<noteq> [] \<and> CHR '','' \<notin> set ''x'' \<and> CHR '','' \<notin> set ''String(err)'' \<and>
   CHR ''}'' \<notin> set ''String(err)'' \<and> CHR '','' \<notin> set ''try { f() } catch (err) { '' \<and>
   CHR '','' \<notin> set ''; }'' \<and>
   apply_patterns PATTERNS
     (''try { f() } catch (err) { '' @ ''logger.error('' @ ''x'' @
      '', { error: err instanceof Error ? err.message : '' @ ''String(err)'' @ '' })'' @ ''; }'') 0 =
     (''try { f() } catch (err) { '' @ ''logger.error('' @ ''x'' @
      '', err instanceof Error ? err : new Error(String(err)))'' @ ''; }'', 1)"
proof -
  have h: "''x'' \<noteq> []" "CHR '','' \<notin> set ''x''" "CHR '','' \<notin> set ''String(err)''"
    "CHR ''}'' \<notin> set ''String(err)''" "CHR '','' \<notin> set ''try { f() } catch (err) { ''"
    "CHR '','' \<notin> set ''; }''"
    by simp_all
  from C3_instanceof_rewritten[OF h] h show ?thesis by blast
qed

text \<open>
  C4, as the specification states it: a file without the trigger substring is counted
  among the files scanned. The total that the summary prints as scanned is the number of
  files the selector returned, and the selector returns only files that contain the
  trigger: of the five files of the example tree three are counted, and
  \<^verbatim>\<open>src/c.tsx\<close>, which has no trigger, is not one of them.
\<close>

theorem C4_counterexample:
  "listing example_world =
     [''src/a.ts'', ''src/node_modules/b.ts'', ''src/c.tsx'', ''src/d.ts'', ''src/e.ts''] \<and>
   data (files example_world ''src/c.tsx'') = Inr ''const x = 1'' \<and>
   \<not> str_contains trigger ''const x = 1'' \<and>
   find_files_with_logger_errors [] example_world = [''src/a.ts'', ''src/d.ts'', ''src/e.ts''] \<and>
   scanned (snd (snd (main [] example_world))) = 3"
  by code_simp

text \<open>
  C4, amended: a file whose content has no occurrence of the trigger substring is not
  selected. It is not among the files whose number the summary reports as scanned, its
  path is absent from the list of changed files, and the run leaves it as it was.
\<close>

theorem C4_no_trigger_not_selected:
  assumes "data (files w filepath) = Inr content"
      and "\<not> str_contains trigger content"
      and "main base w = (w', out, s)"
  shows "filepath \<notin> set (find_files_with_logger_errors base w) \<and>
         scanned s = length (find_files_with_logger_errors base w) \<and>
         filepath \<notin> set (changed_files s) \<and>
         files w' filepath = files w filepath"
proof -
  let ?fs = "find_files_with_logger_errors base w"
  have notsel: "filepath \<notin> set ?fs"
    using assms(1,2) find_files_selected[of filepath base w]
    by (auto simp: selected_def split: if_splits)
  obtain w1 fx t o1 where fe:
    "fix_each base ?fs w [] 0 (banner ''Logger.error() API Fix Script'' @
        [Scanning (base @ ''src''), Found (length ?fs), Plain []]) = (w1, fx, t, o1)"
    by (metis prod_cases4)
  from assms(3) fe
  have s: "s = \<lparr>scanned = length ?fs, changed_files = sort fx, fixes_applied = t\<rparr>"
    and w': "w' = w1"
    by (simp_all add: main_def Let_def)
  from fix_each_frame[OF fe, of filepath] notsel
  have "filepath \<notin> set fx" "files w1 filepath = files w filepath" by auto
  with notsel s w' show ?thesis by simp
qed

theorem C4_no_trigger_not_selected_witness:
  "data (files example_world ''src/c.tsx'') = Inr ''const x = 1'' \<and>
   \<not> str_contains trigger ''const x = 1'' \<and>
   ''src/c.tsx'' \<notin> set (find_files_with_logger_errors [] example_world) \<and>
   scanned (snd (snd (main [] example_world))) =
     length (find_files_with_logger_errors [] example_world) \<and>
   ''src/c.tsx'' \<notin> set (changed_files (snd (snd (main [] example_world)))) \<and>
   files (fst (main [] example_world)) ''src/c.tsx'' = files example_world ''src/c.tsx''"
proof -
  have h1: "data (files example_world ''src/c.tsx'') = Inr ''const x = 1''"
    by (simp add: example_world_def)
  have h2: "\<not> str_contains trigger ''const x = 1''"
    by (simp add: trigger_def)
  have h3: "main [] example_world =
      (fst (main [] example_world), fst (snd (main [] example_world)),
       snd (snd (main [] example_world)))"
    by simp
  from C4_no_trigger_not_selected[OF h1 h2 h3] h1 h2 show ?thesis by blast
qed

text \<open>
  C6. A file whose path contains one of the excluded substrings is never returned by the
  selector, whatever its content.
\<close>

theorem C6_excluded_never_selected:
  assumes "pattern \<in> set [''node_modules'', ''.git'', ''coverage'', ''dist'', ''build'',
             ''.next'', ''DEBUG.md'', ''fix-logger-errors.py'', ''logger.ts'']"
      and "str_contains pattern (base @ filepath)"
  shows "filepath \<notin> set (find_files_with_logger_errors base w)"
proof
  assume "filepath \<in> set (find_files_with_logger_errors base w)"
  then have "selected base w filepath" by (rule find_files_selected)
  then have "\<not> should_skip_file (base @ filepath)"
    by (simp add: selected_def split: if_splits)
  moreover from assms have "should_skip_file (base @ filepath)"
    unfolding should_skip_file_def skip_patterns_def list_ex_iff by blast
  ultimately show False by contradiction
qed

theorem C6_excluded_never_selected_witness:
  "''node_modules'' \<in> set [''node_modules'', ''.git'', ''coverage'', ''dist'', ''build'',
      ''.next'', ''DEBUG.md'', ''fix-logger-errors.py'', ''logger.ts''] \<and>
   str_contains ''node_modules'' (''/repo/'' @ ''src/node_modules/b.ts'') \<and>
   data (files example_world ''src/node_modules/b.ts'') =
     Inr ''logger.error(x, { error: errorMessage })'' \<and>
   str_contains trigger ''logger.error(x, { error: errorMessage })'' \<and>
   ''src/node_modules/b.ts'' \<in> set (rglob example_world ''.ts'') \<and>
   ''src/node_modules/b.ts'' \<notin> set (find_files_with_logger_errors ''/repo/'' example_world)"
proof -
  have h1: "''node_modules'' \<in> set [''node_modules'', ''.git'', ''coverage'', ''dist'',
      ''build'', ''.next'', ''DEBUG.md'', ''fix-logger-errors.py'', ''logger.ts'']"
    by simp
  have h2: "str_contains ''node_modules'' (''/repo/'' @ ''src/node_modules/b.ts'')"
    by simp
  have h3: "str_contains trigger ''logger.error(x, { error: errorMessage })''"
    by (simp add: trigger_def)
  have h4: "data (files example_world ''src/node_modules/b.ts'') =
      Inr ''logger.error(x, { error: errorMessage })''"
    by (simp add: example_world_def)
  have h5: "''src/node_modules/b.ts'' \<in> set (rglob example_world ''.ts'')"
    by code_simp
  from C6_excluded_never_selected[OF h1 h2] h1 h2 h3 h4 h5 show ?thesis by blast
qed

text \<open>
  C7. When reading a file raises, or writing the rewritten content back raises, the error is
  caught inside \<^verbatim>\<open>fix_file\<close>: one message naming the file and the exception is printed, the
  result is (not changed, zero fixes), and the loop of the run goes on with the next file,
  the list of changed files and the total of fixes as they were.
\<close>

theorem C7_errors_caught_per_file:
  assumes "data (files w filepath) = Inl e \<and> w' = w \<or>
           (\<exists>c left. data (files w filepath) = Inr c \<and>
               fst (apply_patterns PATTERNS c 0) \<noteq> c \<and>
               on_write (files w filepath) = WriteFails e left \<and>
               w' = after_failed_write w filepath)"
  shows "fix_file base w filepath = (w', [ErrorProcessing (base @ filepath) e], False, 0) \<and>
         fix_each base (filepath # rest) w fixed_files total_fixes out =
           fix_each base rest w' fixed_files total_fixes
             (out @ [ErrorProcessing (base @ filepath) e])"
proof -
  from assms
  have "fix_file base w filepath = (w', [ErrorProcessing (base @ filepath) e], False, 0)"
    by (auto simp: fix_file_def write_file_def split: prod.splits)
  then show ?thesis by simp
qed

theorem C7_errors_caught_per_file_witness:
  "data (files example_world ''src/d.ts'') = Inr ''logger.error(x, { error: result.error })'' \<and>
   fst (apply_patterns PATTERNS ''logger.error(x, { error: result.error })'' 0) \<noteq>
     ''logger.error(x, { error: result.error })'' \<and>
   on_write (files example_world ''src/d.ts'') =
     WriteFails ''Read-only file system'' (Inr ''logger.error(x, { error: result.error })'') \<and>
   fix_file [] example_world ''src/d.ts'' =
     (after_failed_write example_world ''src/d.ts'',
      [ErrorProcessing ''src/d.ts'' ''Read-only file system''], False, 0) \<and>
   fix_each [] [''src/d.ts'', ''src/e.ts''] example_world [] 0 [] =
     fix_each [] [''src/e.ts''] (after_failed_write example_world ''src/d.ts'') [] 0
       [ErrorProcessing ''src/d.ts'' ''Read-only file system''] \<and>
   data (files example_world ''src/gone.ts'') = Inl ''No such file or directory'' \<and>
   fix_file [] example_world ''src/gone.ts'' =
     (example_world, [ErrorProcessing ''src/gone.ts'' ''No such file or directory''], False, 0)"
proof -
  have h1: "data (files example_world ''src/d.ts'') =
      Inr ''logger.error(x, { error: result.error })''"
    by (simp add: example_world_def)
  have h2: "fst (apply_patterns PATTERNS ''logger.error(x, { error: result.error })'' 0) \<noteq>
      ''logger.error(x, { error: result.error })''"
    by (simp add: apply_result_error)
  have h3: "on_write (files example_world ''src/d.ts'') =
      WriteFails ''Read-only file system'' (Inr ''logger.error(x, { error: result.error })'')"
    by (simp add: example_world_def)
  have h4: "data (files example_world ''src/gone.ts'') = Inl ''No such file or directory''"
    by (simp add: example_world_def)
  have a: "data (files example_world ''src/d.ts'') = Inl ''Read-only file system'' \<and>
        after_failed_write example_world ''src/d.ts'' = example_world \<or>
      (\<exists>c left. data (files example_world ''src/d.ts'') = Inr c \<and>
         fst (apply_patterns PATTERNS c 0) \<noteq> c \<and>
         on_write (files example_world ''src/d.ts'') = WriteFails ''Read-only file system'' left \<and>
         after_failed_write example_world ''src/d.ts'' =
           after_failed_write example_world ''src/d.ts'')"
    using h1 h2 h3 by blast
  have b: "data (files example_world ''src/gone.ts'') = Inl ''No such file or directory'' \<and>
        example_world = example_world \<or>
      (\<exists>c left. data (files example_world ''src/gone.ts'') = Inr c \<and>
         fst (apply_patterns PATTERNS c 0) \<noteq> c \<and>
         on_write (files example_world ''src/gone.ts'') =
           WriteFails ''No such file or directory'' left \<and>
         example_world = after_failed_write example_world ''src/gone.ts'')"
    using h4 by blast
  from C7_errors_caught_per_file[OF a, of "[]" "[''src/e.ts'']" "[]" 0 "[]"]
       C7_errors_caught_per_file[OF b, of "[]" "[]" "[]" 0 "[]"] h1 h2 h3 h4
  show ?thesis by simp
qed

text \<open>
  C8. For a file that was read: when the content after all rules equals the original
  content, nothing is written (the files are as before) and the file is reported as
  unchanged; when it differs, and the write does not fail, the file then holds the
  rewritten content and is reported as changed with the count of the rules, the other
  files being as before.
\<close>

theorem C8_write_back_only_when_changed:
  assumes "data (files w filepath) = Inr original_content"
      and "apply_patterns PATTERNS original_content 0 = (content, n)"
      and "fix_file base w filepath = (w', msgs, changed, fixes)"
  shows "(content = original_content \<longrightarrow> w' = w \<and> \<not> changed) \<and>
         (content \<noteq> original_content \<longrightarrow> on_write (files w filepath) = WriteOk \<longrightarrow>
            data (files w' filepath) = Inr content \<and> changed \<and> fixes = n \<and>
            (\<forall>q. q \<noteq> filepath \<longrightarrow> files w' q = files w q))"
  using assms
  by (auto simp: fix_file_def write_file_def split: write_outcome.splits)

theorem C8_write_back_only_when_changed_witness:
  "data (files example_world ''src/e.ts'') = Inr ''logger.error(x)'' \<and>
   apply_patterns PATTERNS ''logger.error(x)'' 0 = (''logger.error(x)'', 0) \<and>
   fst (fix_file [] example_world ''src/e.ts'') = example_world \<and>
   \<not> fst (snd (snd (fix_file [] example_world ''src/e.ts''))) \<and>
   data (files example_world ''src/a.ts'') = Inr ''logger.error(x, { error: errorMessage })'' \<and>
   apply_patterns PATTERNS ''logger.error(x, { error: errorMessage })'' 0 =
     (''logger.error(x, new Error(errorMessage))'', 1) \<and>
   on_write (files example_world ''src/a.ts'') = WriteOk \<and>
   data (files (fst (fix_file [] example_world ''src/a.ts'')) ''src/a.ts'') =
     Inr ''logger.error(x, new Error(errorMessage))'' \<and>
   fst (snd (snd (fix_file [] example_world ''src/a.ts'')))"
proof -
  have e1: "data (files example_world ''src/e.ts'') = Inr ''logger.error(x)''"
    by (simp add: example_world_def)
  have e3: "fix_file [] example_world ''src/e.ts'' =
      (fst (fix_file [] example_world ''src/e.ts''),
       fst (snd (fix_file [] example_world ''src/e.ts'')),
       fst (snd (snd (fix_file [] example_world ''src/e.ts''))),
       snd (snd (snd (fix_file [] example_world ''src/e.ts''))))"
    by simp
  have a1: "data (files example_world ''src/a.ts'') =
      Inr ''logger.error(x, { error: errorMessage })''"
    by (simp add: example_world_def)
  have a3: "fix_file [] example_world ''src/a.ts'' =
      (fst (fix_file [] example_world ''src/a.ts''),
       fst (snd (fix_file [] example_world ''src/a.ts'')),
       fst (snd (snd (fix_file [] example_world ''src/a.ts''))),
       snd (snd (snd (fix_file [] example_world ''src/a.ts''))))"
    by simp
  have a4: "on_write (files example_world ''src/a.ts'') = WriteOk"
    by (simp add: example_world_def)
  from C8_write_back_only_when_changed[OF e1 apply_no_object e3]
       C8_write_back_only_when_changed[OF a1 apply_only_errorMessage a3]
       e1 a1 a4 apply_no_object apply_only_errorMessage
  show ?thesis by simp
qed

text \<open>
  C9, as stated: every call \<^verbatim>\<open>logger.error(X, { error: result.error })\<close> is rewritten. The
  pattern takes as X the text up to the next comma, so a call whose first argument contains
  a comma is not matched and stays as it is.
\<close>

theorem C9_counterexample:
  "apply_patterns PATTERNS ''logger.error(format(msg, id), { error: result.error })'' 0 =
     (''logger.error(format(msg, id), { error: result.error })'', 0)"
  by (simp add: table_defs)

text \<open>
  C9, amended: the table has, beyond the seven shapes the specification lists, a rule for
  \<^verbatim>\<open>logger.error(X, { error: result.error })\<close>. In a text without further commas, such a
  call with X not empty and free of commas is rewritten by one pass to
  \<^verbatim>\<open>logger.error(X, new Error(result.error))\<close> and counted as one fix.
\<close>

theorem C9_result_error_rewritten:
  assumes "X \<noteq> []" "CHR '','' \<notin> set X" "CHR '','' \<notin> set pre" "CHR '','' \<notin> set post"
  shows "apply_patterns PATTERNS
           (pre @ ''logger.error('' @ X @ '', { error: result.error })'' @ post) 0 =
         (pre @ ''logger.error('' @ X @ '', new Error(result.error))'' @ post, 1)"
proof -
  let ?t = "'' { error: result.error })'' @ post"
  let ?t' = "'' new Error(result.error))'' @ post"
  note a = assms(1,3,2)
  have nc: "CHR '','' \<notin> set ?t" "CHR '','' \<notin> set ?t'" "CHR '','' \<notin> set post"
    using assms by simp_all
  have m1: "match_at (tail_of (search rule1)) ?t = None" by (simp add: tail_defs)
  have m2: "match_at (tail_of (search rule2)) ?t = None" by (simp add: tail_defs)
  have m3: "match_at (tail_of (search rule3)) ?t = None" by (simp add: tail_defs)
  have m4: "match_at (tail_of (search rule4)) ?t = None" by (simp add: tail_defs)
  have m5: "match_at (tail_of (search rule5)) ?t = Some (post, [])" by (simp add: tail_defs)
  have r5: "rest_of (replace rule5) [] @ post = CHR '','' # ?t'" by (simp add: tail_defs)
  have m6: "match_at (tail_of (search rule6)) ?t' = None" by (simp add: tail_defs)
  have m7: "match_at (tail_of (search rule7)) ?t' = None" by (simp add: tail_defs)
  have m8: "match_at (tail_of (search rule8)) ?t' = None" by (simp add: tail_defs)
  have "apply_patterns PATTERNS (pre @ trigger @ X @ CHR '','' # ?t) 0 =
        apply_patterns [rule5, rule6, rule7, rule8] (pre @ trigger @ X @ CHR '','' # ?t) 0"
    unfolding PATTERNS_def
    by (simp only: call_step_miss[OF rules_ok(1) a nc(1) m1]
          call_step_miss[OF rules_ok(2) a nc(1) m2]
          call_step_miss[OF rules_ok(3) a nc(1) m3]
          call_step_miss[OF rules_ok(4) a nc(1) m4])
  also have "\<dots> =
      apply_patterns [rule6, rule7, rule8] (pre @ trigger @ X @ CHR '','' # ?t') (Suc 0)"
    by (simp only: call_step_hit[OF rules_ok(5) a m5 nc(3)] r5)
  also have "\<dots> = (pre @ trigger @ X @ CHR '','' # ?t', Suc 0)"
    by (simp only: call_step_miss[OF rules_ok(6) a nc(2) m6]
          call_step_miss[OF rules_ok(7) a nc(2) m7]
          call_step_miss[OF rules_ok(8) a nc(2) m8] apply_patterns.simps(1))
  finally show ?thesis by (simp add: trigger_def)
qed

theorem C9_result_error_rewritten_witness:
  "''msg'' \<noteq> [] \<and> CHR '','' \<notin> set ''msg'' \<and> CHR '','' \<notin> set ''if (!result.ok) '' \<and>
   CHR '','' \<notin> set '';'' \<and>
   apply_patterns PATTERNS
     (''if (!result.ok) '' @ ''logger.error('' @ ''msg'' @ '', { error: result.error })'' @ '';'') 0 =
     (''if (!result.ok) '' @ ''logger.error('' @ ''msg'' @ '', new Error(result.error))'' @ '';'', 1)"
proof -
  have h: "''msg'' \<noteq> []" "CHR '','' \<notin> set ''msg''" "CHR '','' \<notin> set ''if (!result.ok) ''"
    "CHR '','' \<notin> set '';''"
    by simp_all
  from C9_result_error_rewritten[OF h] h show ?thesis by blast
qed

text \<open>
  C10. The result pair of \<^verbatim>\<open>fix_file\<close>: a file reported as changed has a fix count of at
  least one, a file reported as unchanged has the fix count zero, whatever the rules
  counted; and for a file that is read and can be written, the file is reported as
  changed exactly when the content after all rules differs from the original content.
\<close>

theorem C10_result_pair_invariant:
  assumes "fix_file base w filepath = (w', msgs, changed, fixes)"
  shows "(changed \<longrightarrow> 1 \<le> fixes) \<and> (\<not> changed \<longrightarrow> fixes = 0) \<and>
         (\<forall>c. data (files w filepath) = Inr c \<longrightarrow> on_write (files w filepath) = WriteOk \<longrightarrow>
              changed = (fst (apply_patterns PATTERNS c 0) \<noteq> c))"
proof -
  have cnt: "c' \<noteq> c \<Longrightarrow> apply_patterns PATTERNS c 0 = (c', k) \<Longrightarrow> 1 \<le> k" for c c' k
    using apply_patterns_count[of PATTERNS c 0 c' k] by auto
  from assms show ?thesis
    by (auto simp: fix_file_def write_file_def dest: cnt
             split: sum.splits prod.splits if_splits write_outcome.splits)
qed

theorem C10_result_pair_invariant_witness:
  "fix_file [] example_world ''src/a.ts'' =
     (fst (fix_file [] example_world ''src/a.ts''), [], True, 1) \<and>
   data (files example_world ''src/a.ts'') = Inr ''logger.error(x, { error: errorMessage })'' \<and>
   on_write (files example_world ''src/a.ts'') = WriteOk \<and>
   fst (apply_patterns PATTERNS ''logger.error(x, { error: errorMessage })'' 0) \<noteq>
     ''logger.error(x, { error: errorMessage })'' \<and>
   fix_file [] example_world ''src/e.ts'' = (example_world, [], False, 0) \<and>
   data (files example_world ''src/e.ts'') = Inr ''logger.error(x)'' \<and>
   fst (apply_patterns PATTERNS ''logger.error(x)'' 0) = ''logger.error(x)''"
proof -
  have a1: "data (files example_world ''src/a.ts'') =
      Inr ''logger.error(x, { error: errorMessage })''"
    by (simp add: example_world_def)
  have a2: "on_write (files example_world ''src/a.ts'') = WriteOk"
    by (simp add: example_world_def)
  have a3: "fix_file [] example_world ''src/a.ts'' =
      (fst (fix_file [] example_world ''src/a.ts''), [], True, 1)"
    by (simp add: fix_file_def write_file_def a1 a2 apply_only_errorMessage)
  have e1: "data (files example_world ''src/e.ts'') = Inr ''logger.error(x)''"
    by (simp add: example_world_def)
  have e3: "fix_file [] example_world ''src/e.ts'' = (example_world, [], False, 0)"
    by (simp add: fix_file_def e1 apply_no_object)
  from C10_result_pair_invariant[OF a3] C10_result_pair_invariant[OF e3]
       a1 a2 a3 e1 e3 apply_only_errorMessage apply_no_object
  show ?thesis by simp
qed

end
